theory Spec2Isabelle
  imports Main
begin

section \<open>SafeList: a std::list guarded by a recursive mutex\<close>

text \<open>
  The class \<^verbatim>\<open>SafeList<T>\<close> of \<^verbatim>\<open>safelist.h\<close> derives (protected) from \<^verbatim>\<open>list<T>\<close> and
  owns one recursive pthread mutex. The model follows one calling thread:

  \<^item> \<open>items\<close> is the \<^verbatim>\<open>list<T>\<close> base object, front first;
  \<^item> \<open>safelist_mutex\<close> is the recursion count of the mutex, that is how many times the
    calling thread holds it (0: not held);
  \<^item> \<open>access_log\<close> is instrumentation, not a field of the class: every member function of
    the \<^verbatim>\<open>list<T>\<close> base that is called, and every \<^verbatim>\<open>*itr\<close>, appends the recursion count
    of the mutex at the moment of the call. An entry 0 is an access to the list made
    without the lock.

  An iterator of \<^verbatim>\<open>list<T>\<close> is modelled as the position of its node counted from the
  front; \<^verbatim>\<open>end()\<close> is the length of the list. \<^verbatim>\<open>size_t\<close> is modelled as \<open>nat\<close>: the
  number of nodes of a list never exceeds \<^verbatim>\<open>max_size()\<close>, so the count does not wrap.
\<close>

record 'a SafeList =
  items :: "'a list"
  safelist_mutex :: nat
  access_log :: "nat list"

subsection \<open>The pthread mutex, as seen by the calling thread\<close>

text \<open>
  \<^verbatim>\<open>pthread_mutex_lock\<close> on a \<^verbatim>\<open>PTHREAD_MUTEX_RECURSIVE\<close> mutex returns 0 and counts one
  more acquisition (the call returns once the thread owns the mutex).
  \<^verbatim>\<open>pthread_mutex_unlock\<close> returns \<^verbatim>\<open>EPERM\<close> (1) when the thread does not own the mutex,
  and otherwise counts one acquisition less and returns 0. The error returns of
  \<^verbatim>\<open>pthread_mutex_lock\<close> (an invalid mutex, the recursion limit of the platform) are
  outside the model; the callers of \<open>Lock\<close> ignore its result in any case.
\<close>

definition pthread_mutex_lock :: "'a SafeList \<Rightarrow> int \<times> 'a SafeList" where
  "pthread_mutex_lock s = (0, s\<lparr>safelist_mutex := Suc (safelist_mutex s)\<rparr>)"

definition pthread_mutex_unlock :: "'a SafeList \<Rightarrow> int \<times> 'a SafeList" where
  "pthread_mutex_unlock s =
     (if safelist_mutex s = 0 then (1, s)
      else (0, s\<lparr>safelist_mutex := safelist_mutex s - 1\<rparr>))"

definition Lock :: "'a SafeList \<Rightarrow> bool \<times> 'a SafeList" where
  "Lock s =
     (let (rc, s1) = pthread_mutex_lock s
      in if rc \<noteq> 0 then (False, s1) else (True, s1))"

definition Unlock :: "'a SafeList \<Rightarrow> bool \<times> 'a SafeList" where
  "Unlock s =
     (let (rc, s1) = pthread_mutex_unlock s
      in if rc \<noteq> 0 then (False, s1) else (True, s1))"

subsection \<open>The member functions of the base class list<T>\<close>

definition touch :: "'a SafeList \<Rightarrow> 'a SafeList" where
  "touch s = s\<lparr>access_log := access_log s @ [safelist_mutex s]\<rparr>"

definition list_empty :: "'a SafeList \<Rightarrow> bool \<times> 'a SafeList" where
  "list_empty s = (items s = [], touch s)"

definition list_size :: "'a SafeList \<Rightarrow> nat \<times> 'a SafeList" where
  "list_size s = (length (items s), touch s)"

definition list_begin :: "'a SafeList \<Rightarrow> nat \<times> 'a SafeList" where
  "list_begin s = (0, touch s)"

definition list_end :: "'a SafeList \<Rightarrow> nat \<times> 'a SafeList" where
  "list_end s = (length (items s), touch s)"

text \<open>\<^verbatim>\<open>*itr\<close>: reading the element of a node of the list. The code dereferences only
  iterators of nodes: the front after the test for emptiness in \<^verbatim>\<open>pop_front\<close>, and
  positions before \<^verbatim>\<open>end()\<close> in the loop of \<^verbatim>\<open>visit_all\<close>.\<close>

definition list_deref :: "nat \<Rightarrow> 'a SafeList \<Rightarrow> 'a \<times> 'a SafeList" where
  "list_deref itr s = (items s ! itr, touch s)"

text \<open>\<^verbatim>\<open>list<T>::erase(itr)\<close> unlinks the node at \<open>itr\<close>; its result, the iterator that
  follows, has the position \<open>itr\<close> in the new list.\<close>

definition list_erase :: "nat \<Rightarrow> 'a SafeList \<Rightarrow> nat \<times> 'a SafeList" where
  "list_erase itr s =
     (itr, touch (s\<lparr>items := take itr (items s) @ drop (Suc itr) (items s)\<rparr>))"

definition list_push_back :: "'a \<Rightarrow> 'a SafeList \<Rightarrow> 'a SafeList" where
  "list_push_back arg s = touch (s\<lparr>items := items s @ [arg]\<rparr>)"

text \<open>\<^verbatim>\<open>list<T>::remove(value)\<close> of the standard library walks the nodes from the first to
  the last and erases each node whose element compares equal to \<open>value\<close>.\<close>

fun erase_equal :: "'a \<Rightarrow> 'a list \<Rightarrow> 'a list" where
  "erase_equal t [] = []"
| "erase_equal t (x # xs) = (if x = t then erase_equal t xs else x # erase_equal t xs)"

definition list_remove :: "'a \<Rightarrow> 'a SafeList \<Rightarrow> 'a SafeList" where
  "list_remove t s = touch (s\<lparr>items := erase_equal t (items s)\<rparr>)"

subsection \<open>SafeList<T>\<close>

text \<open>The constructor: an empty list and a mutex that nobody holds.\<close>

definition SafeList_new :: "'a SafeList" where
  "SafeList_new = \<lparr>items = [], safelist_mutex = 0, access_log = []\<rparr>"

text \<open>\<^verbatim>\<open>SafeList<T>::empty\<close> returns \<^verbatim>\<open>list<T>::empty()\<close> and calls neither \<^verbatim>\<open>Lock\<close> nor
  \<^verbatim>\<open>Unlock\<close>.\<close>

definition empty :: "'a SafeList \<Rightarrow> bool \<times> 'a SafeList" where
  "empty s = list_empty s"

text \<open>The private \<^verbatim>\<open>SafeList<T>::begin\<close>, which takes the lock around \<^verbatim>\<open>list<T>::begin\<close>.\<close>

definition begin_safe :: "'a SafeList \<Rightarrow> nat \<times> 'a SafeList" where
  "begin_safe s =
     (let (locked, s1) = Lock s;
          (my_itr, s2) = list_begin s1;
          (unlocked, s3) = Unlock s2
      in (my_itr, s3))"

text \<open>\<^verbatim>\<open>T ret_val = NULL\<close>: the element type has a null value, \<open>0\<close>. Inside \<^verbatim>\<open>pop_front\<close>,
  \<^verbatim>\<open>this->empty()\<close> is \<^verbatim>\<open>SafeList<T>::empty\<close> and \<^verbatim>\<open>begin()\<close> is \<^verbatim>\<open>SafeList<T>::begin\<close>.\<close>

definition pop_front :: "('a::zero) SafeList \<Rightarrow> 'a \<times> 'a SafeList" where
  "pop_front s =
     (let ret_val = 0;
          (locked, s1) = Lock s;
          (is_empty, s2) = empty s1
      in if \<not> is_empty
         then (let (itr, s3) = begin_safe s2;
                   (front, s4) = list_deref itr s3;
                   (next, s5) = list_erase itr s4;
                   (unlocked, s6) = Unlock s5
               in (front, s6))
         else (let (unlocked, s3) = Unlock s2 in (ret_val, s3)))"

definition push_back :: "'a \<Rightarrow> 'a SafeList \<Rightarrow> 'a SafeList" where
  "push_back arg s =
     (let (locked, s1) = Lock s;
          s2 = list_push_back arg s1;
          (unlocked, s3) = Unlock s2
      in s3)"

definition size_safe :: "'a SafeList \<Rightarrow> nat \<times> 'a SafeList" where
  "size_safe s =
     (let (locked, s1) = Lock s;
          (n, s2) = list_size s1;
          (unlocked, s3) = Unlock s2
      in (n, s3))"

definition remove :: "'a \<Rightarrow> 'a SafeList \<Rightarrow> 'a SafeList" where
  "remove t s =
     (let (locked, s1) = Lock s;
          s2 = list_remove t s1;
          (unlocked, s3) = Unlock s2
      in s3)"

text \<open>
  \<^verbatim>\<open>visit_all\<close>. The visitor is a \<^verbatim>\<open>std::function<bool(const T&)>\<close>: it reads the element
  it is given, cannot write it, answers whether to go on, and may change what it has
  captured. Here it is a function from its captured state \<open>'v\<close> and the element to its
  answer and its new captured state: a visitor that has not captured the container and so
  keeps to the contract of the caller, not to touch the list it is called over. The
  visitor that has the container in reach follows below.

  The loop \<^verbatim>\<open>for (itr = list<T>::begin(); itr != list<T>::end(); ++itr)\<close> is \<open>visit_from\<close>,
  started at \<^verbatim>\<open>list<T>::begin()\<close>; positions run from the front up to \<^verbatim>\<open>end()\<close>, where
  \<^verbatim>\<open>itr != end()\<close> is \<open>itr < end\<close>.
\<close>

function visit_from ::
  "('v \<Rightarrow> 'a \<Rightarrow> bool \<times> 'v) \<Rightarrow> nat \<Rightarrow> 'v \<Rightarrow> 'a SafeList \<Rightarrow> 'v \<times> 'a SafeList" where
  "visit_from visitor itr v s =
     (let (last, s1) = list_end s
      in if itr < last
         then (let (item, s2) = list_deref itr s1;
                   (continue, v1) = visitor v item
               in if \<not> continue then (v1, s2)
                  else visit_from visitor (Suc itr) v1 s2)
         else (v, s1))"
  by pat_completeness auto
termination
  by (relation "measure (\<lambda>(visitor, itr, v, s). length (items s) - itr)")
     (auto simp: list_end_def list_deref_def touch_def)

definition visit_all ::
  "('v \<Rightarrow> 'a \<Rightarrow> bool \<times> 'v) \<Rightarrow> 'v \<Rightarrow> 'a SafeList \<Rightarrow> 'v \<times> 'a SafeList" where
  "visit_all visitor v s =
     (let (locked, s1) = Lock s;
          (itr, s2) = list_begin s1;
          (v1, s3) = visit_from visitor itr v s2;
          (unlocked, s4) = Unlock s3
      in (v1, s4))"

subsection \<open>Reference functions for the traversal\<close>

text \<open>What a visitor has captured after it was shown the elements \<open>xs\<close> in order, until
  it answered false or the elements ran out.\<close>

fun visit_list :: "('v \<Rightarrow> 'a \<Rightarrow> bool \<times> 'v) \<Rightarrow> 'v \<Rightarrow> 'a list \<Rightarrow> 'v" where
  "visit_list visitor v [] = v"
| "visit_list visitor v (x # xs) =
     (case visitor v x of
        (continue, v1) \<Rightarrow> if \<not> continue then v1 else visit_list visitor v1 xs)"

text \<open>A visitor that notes every element it is called with, in the order of the calls,
  and answers \<open>p item\<close>: the lambda
  \<^verbatim>\<open>[&seen](const T& item) { seen.push_back(item); return p(item); }\<close>.\<close>

definition recording :: "('a \<Rightarrow> bool) \<Rightarrow> 'a list \<Rightarrow> 'a \<Rightarrow> bool \<times> 'a list" where
  "recording p seen item = (p item, seen @ [item])"

subsection \<open>visit_all with a visitor that has the container in reach\<close>

text \<open>
  Nothing in \<^verbatim>\<open>visit_all\<close> keeps the visitor away from the container: a lambda that has
  captured the \<^verbatim>\<open>SafeList\<close> can call its public operations from inside the traversal,
  and the recursive mutex lets the calling thread through. Such a visitor is a function
  that also takes the state of the container and returns the new one.

  The loop is the same as \<open>visit_from\<close>, with the state that the visitor returns carried
  on; \<^verbatim>\<open>list<T>::end()\<close> is read again at every round, so elements that the visitor
  appends are visited too. A visitor that appends at every call keeps the loop running
  for ever: the result is an option, \<open>None\<close> when the traversal does not return.
  Positions follow the node iterators of \<^verbatim>\<open>list<T>\<close> as long as the visitor erases no
  node (to erase the node under the iterator is undefined in C++).
\<close>

partial_function (option) visit_from_reentrant ::
  "('v \<Rightarrow> 'a \<Rightarrow> 'a SafeList \<Rightarrow> (bool \<times> 'v) \<times> 'a SafeList) \<Rightarrow> nat \<Rightarrow> 'v \<Rightarrow> 'a SafeList
     \<Rightarrow> ('v \<times> 'a SafeList) option" where
  "visit_from_reentrant visitor itr v s =
     (let (last, s1) = list_end s
      in if itr < last
         then (let (item, s2) = list_deref itr s1;
                   ((continue, v1), s3) = visitor v item s2
               in if \<not> continue then Some (v1, s3)
                  else visit_from_reentrant visitor (Suc itr) v1 s3)
         else Some (v, s1))"

declare visit_from_reentrant.simps [code]

definition visit_all_reentrant ::
  "('v \<Rightarrow> 'a \<Rightarrow> 'a SafeList \<Rightarrow> (bool \<times> 'v) \<times> 'a SafeList) \<Rightarrow> 'v \<Rightarrow> 'a SafeList
     \<Rightarrow> ('v \<times> 'a SafeList) option" where
  "visit_all_reentrant visitor v s =
     (let (locked, s1) = Lock s;
          (itr, s2) = list_begin s1
      in case visit_from_reentrant visitor itr v s2 of
           None \<Rightarrow> None
         | Some (v1, s3) \<Rightarrow> (let (unlocked, s4) = Unlock s3 in Some (v1, s4)))"

text \<open>A visitor that has not captured the container, seen as one that has it in reach
  and leaves it alone.\<close>

definition detached ::
  "('v \<Rightarrow> 'a \<Rightarrow> bool \<times> 'v) \<Rightarrow> 'v \<Rightarrow> 'a \<Rightarrow> 'a SafeList \<Rightarrow> (bool \<times> 'v) \<times> 'a SafeList" where
  "detached visitor v item s = (visitor v item, s)"



section \<open>What each operation does to the state\<close>

declare visit_from.simps [simp del]

lemmas mutex_defs = Lock_def Unlock_def pthread_mutex_lock_def pthread_mutex_unlock_def

lemmas list_defs = touch_def list_empty_def list_size_def list_begin_def list_end_def
  list_deref_def list_erase_def list_push_back_def list_remove_def

text \<open>Each operation as one state update. The appended part of \<open>access_log\<close> shows at
  which recursion count of the mutex the operation touched the list.\<close>

lemma push_back_eq:
  "push_back arg s =
     s\<lparr>items := items s @ [arg], access_log := access_log s @ [Suc (safelist_mutex s)]\<rparr>"
  by (simp add: push_back_def mutex_defs list_defs)

lemma remove_eq:
  "remove t s =
     s\<lparr>items := erase_equal t (items s),
       access_log := access_log s @ [Suc (safelist_mutex s)]\<rparr>"
  by (simp add: remove_def mutex_defs list_defs)

lemma size_safe_eq:
  "size_safe s =
     (length (items s), s\<lparr>access_log := access_log s @ [Suc (safelist_mutex s)]\<rparr>)"
  by (simp add: size_safe_def mutex_defs list_defs)

lemma empty_eq:
  "empty s = (items s = [], s\<lparr>access_log := access_log s @ [safelist_mutex s]\<rparr>)"
  by (simp add: empty_def list_defs)

lemma begin_safe_eq:
  "begin_safe s = (0, s\<lparr>access_log := access_log s @ [Suc (safelist_mutex s)]\<rparr>)"
  by (simp add: begin_safe_def mutex_defs list_defs)

lemma pop_front_Nil:
  "items s = [] \<Longrightarrow>
   pop_front s = (0, s\<lparr>access_log := access_log s @ [Suc (safelist_mutex s)]\<rparr>)"
  by (simp add: pop_front_def empty_eq begin_safe_eq mutex_defs list_defs)

lemma pop_front_Cons:
  "items s = x # xs \<Longrightarrow>
   pop_front s =
     (x, s\<lparr>items := xs,
          access_log := access_log s @
            [Suc (safelist_mutex s), Suc (Suc (safelist_mutex s)),
             Suc (safelist_mutex s), Suc (safelist_mutex s)]\<rparr>)"
  by (simp add: pop_front_def empty_eq begin_safe_eq mutex_defs list_defs)

lemma erase_equal_filter: "erase_equal t xs = filter (\<lambda>x. x \<noteq> t) xs"
  by (induction xs) auto

subsection \<open>The traversal\<close>

lemma visit_from_unfold:
  "visit_from visitor itr v s =
     (if itr < length (items s)
      then (case visitor v (items s ! itr) of
              (continue, v1) \<Rightarrow>
                if \<not> continue then (v1, touch (touch s))
                else visit_from visitor (Suc itr) v1 (touch (touch s)))
      else (v, touch s))"
  by (subst visit_from.simps) (simp add: list_end_def list_deref_def touch_def split: prod.splits)

lemma visit_from_induct [consumes 0, case_names step]:
  assumes "\<And>visitor itr v s.
     (\<And>continue v1. itr < length (items s) \<Longrightarrow> visitor v (items s ! itr) = (continue, v1) \<Longrightarrow>
        continue \<Longrightarrow> P visitor (Suc itr) v1 (touch (touch s))) \<Longrightarrow> P visitor itr v s"
  shows "P visitor itr v s"
proof (induction visitor itr v s rule: visit_from.induct)
  case (1 visitor itr v s)
  show ?case
  proof (rule assms)
    fix continue v1
    assume a: "itr < length (items s)" "visitor v (items s ! itr) = (continue, v1)" "continue"
    show "P visitor (Suc itr) v1 (touch (touch s))"
      by (rule "1.IH"[of "(length (items s), touch s)" "length (items s)" "touch s"
              "(items s ! itr, touch (touch s))" "items s ! itr" "touch (touch s)" "(continue, v1)" continue v1])
         (use a in \<open>simp_all add: list_end_def list_deref_def touch_def\<close>)
  qed
qed

text \<open>The loop leaves the list and the mutex alone, and each of its accesses to the list
  happens at the recursion count it was started with.\<close>

lemma items_visit_from: "items (snd (visit_from visitor itr v s)) = items s"
proof (induction visitor itr v s rule: visit_from_induct)
  case (step visitor itr v s)
  then show ?case
    by (subst visit_from_unfold) (auto simp: touch_def split: prod.splits)
qed

lemma mutex_visit_from:
  "safelist_mutex (snd (visit_from visitor itr v s)) = safelist_mutex s"
proof (induction visitor itr v s rule: visit_from_induct)
  case (step visitor itr v s)
  then show ?case
    by (subst visit_from_unfold) (auto simp: touch_def split: prod.splits)
qed

lemma log_visit_from:
  "\<exists>k. access_log (snd (visit_from visitor itr v s)) =
          access_log s @ replicate k (safelist_mutex s)"
proof (induction visitor itr v s rule: visit_from_induct)
  case (step visitor itr v s)
  let ?m = "safelist_mutex s"
  have one: "access_log (touch s) = access_log s @ replicate 1 ?m"
    and two: "access_log (touch (touch s)) = access_log s @ replicate 2 ?m"
    by (simp_all add: touch_def numeral_2_eq_2)
  show ?case
  proof (cases "itr < length (items s)")
    case False
    then have "visit_from visitor itr v s = (v, touch s)"
      by (subst visit_from_unfold) simp
    with one show ?thesis
      by (metis snd_conv)
  next
    case True
    obtain continue v1 where vis: "visitor v (items s ! itr) = (continue, v1)"
      by (cases "visitor v (items s ! itr)")
    show ?thesis
    proof (cases continue)
      case False
      with True vis have "visit_from visitor itr v s = (v1, touch (touch s))"
        by (subst visit_from_unfold) simp
      with two show ?thesis
        by (metis snd_conv)
    next
      case True2: True
      with True vis have eq:
        "visit_from visitor itr v s = visit_from visitor (Suc itr) v1 (touch (touch s))"
        by (subst visit_from_unfold) simp
      from step [OF True vis True2] obtain k where
        "access_log (snd (visit_from visitor (Suc itr) v1 (touch (touch s)))) =
           access_log (touch (touch s)) @ replicate k (safelist_mutex (touch (touch s)))"
        by blast
      then have "access_log (snd (visit_from visitor itr v s)) =
                   access_log s @ replicate (2 + k) ?m"
        unfolding eq two replicate_add by (simp add: touch_def)
      then show ?thesis
        by blast
    qed
  qed
qed

lemma visit_from_result:
  "fst (visit_from visitor itr v s) = visit_list visitor v (drop itr (items s))"
proof (induction visitor itr v s rule: visit_from_induct)
  case (step visitor itr v s)
  show ?case
  proof (cases "itr < length (items s)")
    case False
    then show ?thesis
      by (subst visit_from_unfold) simp
  next
    case True
    then have dr: "drop itr (items s) = items s ! itr # drop (Suc itr) (items s)"
      by (simp add: Cons_nth_drop_Suc)
    obtain continue v1 where vis: "visitor v (items s ! itr) = (continue, v1)"
      by (cases "visitor v (items s ! itr)")
    show ?thesis
    proof (cases continue)
      case False
      with True vis dr show ?thesis
        by (subst visit_from_unfold) simp
    next
      case True2: True
      from step [OF True vis True2] True vis True2 dr show ?thesis
        by (subst visit_from_unfold) (simp add: touch_def)
    qed
  qed
qed

lemma visit_all_eq:
  "visit_all visitor v s =
     (let r = visit_from visitor 0 v
                (s\<lparr>safelist_mutex := Suc (safelist_mutex s),
                   access_log := access_log s @ [Suc (safelist_mutex s)]\<rparr>)
      in (fst r, snd r\<lparr>safelist_mutex := safelist_mutex s\<rparr>))"
proof -
  let ?s2 = "s\<lparr>safelist_mutex := Suc (safelist_mutex s),
                access_log := access_log s @ [Suc (safelist_mutex s)]\<rparr>"
  obtain v1 s3 where r: "visit_from visitor 0 v ?s2 = (v1, s3)"
    by (cases "visit_from visitor 0 v ?s2")
  have "safelist_mutex (snd (visit_from visitor 0 v ?s2)) = safelist_mutex ?s2"
    by (rule mutex_visit_from)
  with r have "safelist_mutex s3 = Suc (safelist_mutex s)"
    by simp
  with r show ?thesis
    by (simp add: visit_all_def mutex_defs list_begin_def touch_def)
qed

lemma visit_all_result: "fst (visit_all visitor v s) = visit_list visitor v (items s)"
  by (simp add: visit_all_eq visit_from_result Let_def)

lemma visit_all_log:
  "\<exists>k. access_log (snd (visit_all visitor v s)) =
          access_log s @ replicate k (Suc (safelist_mutex s))"
proof -
  let ?s2 = "s\<lparr>safelist_mutex := Suc (safelist_mutex s),
                access_log := access_log s @ [Suc (safelist_mutex s)]\<rparr>"
  obtain k where "access_log (snd (visit_from visitor 0 v ?s2)) =
                    access_log ?s2 @ replicate k (safelist_mutex ?s2)"
    using log_visit_from [of visitor 0 v ?s2] by blast
  then have "access_log (snd (visit_all visitor v s)) =
               access_log s @ replicate (Suc k) (Suc (safelist_mutex s))"
    by (simp add: visit_all_eq Let_def)
  then show ?thesis
    by blast
qed

lemma visit_list_recording:
  "visit_list (recording p) seen xs = seen @ takeWhile p xs @ take 1 (dropWhile p xs)"
  by (induction xs arbitrary: seen) (simp_all add: recording_def)

lemma visit_all_items: "items (snd (visit_all visitor v s)) = items s"
  by (simp add: visit_all_eq items_visit_from Let_def)

subsection \<open>The traversal with the container in reach of the visitor\<close>

lemma visit_from_reentrant_unfold:
  "visit_from_reentrant visitor itr v s =
     (if itr < length (items s)
      then (case visitor v (items s ! itr) (touch (touch s)) of
              ((continue, v1), s3) \<Rightarrow>
                if \<not> continue then Some (v1, s3)
                else visit_from_reentrant visitor (Suc itr) v1 s3)
      else Some (v, touch s))"
  by (subst visit_from_reentrant.simps)
     (simp add: list_end_def list_deref_def touch_def split: prod.splits)

text \<open>With a visitor that leaves the container alone, this is the traversal \<open>visit_all\<close>.\<close>

lemma visit_from_reentrant_detached:
  "visit_from_reentrant (detached visitor) itr v s = Some (visit_from visitor itr v s)"
proof (induction visitor itr v s rule: visit_from_induct)
  case (step visitor itr v s)
  show ?case
  proof (cases "itr < length (items s)")
    case False
    then show ?thesis
      by (subst visit_from_reentrant_unfold, subst visit_from_unfold) simp
  next
    case True
    obtain continue v1 where vis: "visitor v (items s ! itr) = (continue, v1)"
      by (cases "visitor v (items s ! itr)")
    then have det: "detached visitor v (items s ! itr) (touch (touch s)) =
                      ((continue, v1), touch (touch s))"
      by (simp add: detached_def)
    show ?thesis
    proof (cases continue)
      case False
      with True vis det show ?thesis
        by (subst visit_from_reentrant_unfold, subst visit_from_unfold) simp
    next
      case True2: True
      from step [OF True vis True2] True vis det True2 show ?thesis
        by (subst visit_from_reentrant_unfold, subst visit_from_unfold) simp
    qed
  qed
qed

lemma visit_all_reentrant_detached:
  "visit_all_reentrant (detached visitor) v s = Some (visit_all visitor v s)"
  by (simp add: visit_all_reentrant_def visit_all_def visit_from_reentrant_detached
        split: prod.splits)


section \<open>The claims\<close>

subsection \<open>Popping\<close>

text \<open>
  C1, as the code has it. \<open>pop_front\<close> returns a \<open>T\<close>, initialised with \<^verbatim>\<open>NULL\<close>; there is no
  result that says "absent". On an empty container the result is the null value of
  \<open>T\<close>, and it is also the result when the front element is that null value: the
  result of \<open>pop_front\<close> alone does not tell the two apart.
\<close>

theorem C1_pop_front_empty_returns_null:
  "fst (pop_front (s\<lparr>items := []\<rparr>)) = 0 \<and>
   fst (pop_front (s\<lparr>items := 0 # xs\<rparr>)) = 0"
  by (simp add: pop_front_Nil pop_front_Cons)

text \<open>
  C1, as the claim states it, fails: for \<open>T = int\<close>, popping the freshly constructed
  container and popping a container that holds the single element 0 give the same
  result.
\<close>

theorem C1_counterexample:
  "fst (pop_front (SafeList_new :: int SafeList)) =
   fst (pop_front (push_back (0 :: int) SafeList_new))"
  by (simp add: pop_front_Nil pop_front_Cons push_back_eq SafeList_new_def)

text \<open>
  C8: \<open>pop_front\<close> on an empty container leaves it as it was: the list is still empty and
  the mutex is held as many times as before. The only thing the call does to the list is
  one access under the lock (the test for emptiness).
\<close>

theorem C8_pop_front_empty_unchanged:
  "snd (pop_front (s\<lparr>items := []\<rparr>)) =
     s\<lparr>items := [], access_log := access_log s @ [Suc (safelist_mutex s)]\<rparr> \<and>
   items (snd (pop_front (s\<lparr>items := []\<rparr>))) = [] \<and>
   safelist_mutex (snd (pop_front (s\<lparr>items := []\<rparr>))) = safelist_mutex s"
  by (simp add: pop_front_Nil)

text \<open>
  C3: first in, first out. \<open>push_back\<close> appends at the back; \<open>pop_front\<close> on a list
  \<open>x # xs\<close> returns \<open>x\<close> and leaves \<open>xs\<close>; and three pushes of \<open>a\<close>, \<open>b\<close>, \<open>c\<close> on the
  new container followed by three pops give \<open>a\<close>, \<open>b\<close>, \<open>c\<close> in this order and leave the
  container empty.
\<close>

theorem C3_fifo:
  "items (push_back v s) = items s @ [v] \<and>
   fst (pop_front (s\<lparr>items := x # xs\<rparr>)) = x \<and>
   items (snd (pop_front (s\<lparr>items := x # xs\<rparr>))) = xs \<and>
   (let s1 = push_back c (push_back b (push_back a SafeList_new));
        (r1, s2) = pop_front s1;
        (r2, s3) = pop_front s2;
        (r3, s4) = pop_front s3
    in [r1, r2, r3] = [a, b, c] \<and> items s4 = [])"
proof -
  have push: "items (push_back v s) = items s @ [v]"
    by (simp add: push_back_eq)
  have pop: "fst (pop_front (s\<lparr>items := x # xs\<rparr>)) = x \<and>
             items (snd (pop_front (s\<lparr>items := x # xs\<rparr>))) = xs"
    by (simp add: pop_front_Cons)
  let ?s1 = "push_back c (push_back b (push_back a SafeList_new))"
  have "items ?s1 = [a, b, c]"
    by (simp add: push_back_eq SafeList_new_def)
  then obtain s2 where p1: "pop_front ?s1 = (a, s2)" and i2: "items s2 = [b, c]"
    by (simp add: pop_front_Cons)
  then obtain s3 where p2: "pop_front s2 = (b, s3)" and i3: "items s3 = [c]"
    by (simp add: pop_front_Cons)
  then obtain s4 where p3: "pop_front s3 = (c, s4)" and i4: "items s4 = []"
    by (simp add: pop_front_Cons)
  from p1 p2 p3 i4 push pop show ?thesis
    by simp
qed

subsection \<open>Emptiness and size\<close>

text \<open>
  C2 fails on the code: \<open>empty\<close> reads the list without taking the lock. Called on the
  freshly constructed container, where nobody holds the mutex, its one access to the list
  happens at recursion count 0, whereas the access of \<open>size\<close> on the same container
  happens at recursion count 1. (\<open>push_back_eq\<close>, \<open>remove_eq\<close>, \<open>size_safe_eq\<close>,
  \<open>pop_front_Nil\<close>, \<open>pop_front_Cons\<close> and \<open>visit_all_log\<close> show that every other public
  operation touches the list only at a recursion count of at least 1.)
\<close>

theorem C2_empty_reads_without_lock:
  "access_log (snd (empty (SafeList_new :: 'a SafeList))) = [0] \<and>
   access_log (snd (size_safe (SafeList_new :: 'a SafeList))) = [1]"
  by (simp add: empty_eq size_safe_eq SafeList_new_def)

text \<open>
  C6: in every state of the container, so in every reachable one, \<open>empty\<close> answers true
  exactly when \<open>size\<close> answers 0.
\<close>

theorem C6_empty_iff_size_zero:
  "fst (empty s) = (fst (size_safe s) = 0)"
  by (simp add: empty_eq size_safe_eq)

subsection \<open>Removing by value\<close>

text \<open>
  C4: after \<open>remove t\<close> no element equal to \<open>t\<close> is left, wherever and however often it
  occurred; from the contents \<open>[1, 2, 1, 3, 1]\<close>, \<open>remove 1\<close> leaves \<open>[2, 3]\<close>.
\<close>

theorem C4_remove_every_match:
  "t \<notin> set (items (remove t s)) \<and>
   items (remove (1 :: int) (s'\<lparr>items := [1, 2, 1, 3, 1]\<rparr>)) = [2, 3]"
  by (simp add: remove_eq erase_equal_filter)

text \<open>
  C7: when no element of the list equals \<open>t\<close>, \<open>remove t\<close> returns with the contents of
  the list unchanged and the mutex held as often as before.
\<close>

theorem C7_remove_no_match:
  "t \<notin> set (items s) \<Longrightarrow>
   items (remove t s) = items s \<and> safelist_mutex (remove t s) = safelist_mutex s"
  by (auto simp: remove_eq erase_equal_filter filter_id_conv)

theorem C7_remove_no_match_witness:
  "(4 :: int) \<notin> set (items (push_back 3 (push_back 2 (push_back 1 SafeList_new)))) \<and>
   items (remove (4 :: int) (push_back 3 (push_back 2 (push_back 1 SafeList_new)))) = [1, 2, 3] \<and>
   items (push_back 3 (push_back 2 (push_back (1 :: int) SafeList_new))) = [1, 2, 3]"
  using C7_remove_no_match [of 4 "push_back 3 (push_back 2 (push_back (1 :: int) SafeList_new))"]
  by (simp add: push_back_eq SafeList_new_def)

text \<open>
  C9: the contents after \<open>remove t\<close> are the contents before with the elements equal to
  \<open>t\<close> filtered out; the elements that stay keep their order.
\<close>

theorem C9_remove_is_filter:
  "items (remove t s) = filter (\<lambda>x. x \<noteq> t) (items s)"
proof -
  have "erase_equal t xs = filter (\<lambda>x. x \<noteq> t) xs" for xs
    by (induction xs) simp_all
  then show ?thesis
    by (simp add: remove_eq)
qed

subsection \<open>Visiting\<close>

text \<open>
  C5: \<open>visit_all\<close> calls the visitor on the elements from the front on, once each and in
  order, up to and including the first element on which the visitor answers false, and on
  no element after it: what any visitor has captured at the end is what \<open>visit_list\<close>
  computes over the contents. For a visitor that notes what it is called with and answers
  \<open>p item\<close>, the notes are the longest prefix of elements that satisfy \<open>p\<close> followed by the
  first element that does not (if there is one). Over \<open>[1, 2, 3, 4]\<close>, with the answer
  false on 2, the visitor is called with 1 and 2 only.
\<close>

theorem C5_visit_all_order_and_stop:
  "fst (visit_all visitor v s) = visit_list visitor v (items s) \<and>
   fst (visit_all (recording p) seen s) =
     seen @ takeWhile p (items s) @ take 1 (dropWhile p (items s)) \<and>
   fst (visit_all (recording (\<lambda>item. item \<noteq> 2)) [] (s'\<lparr>items := [1, 2, 3, 4 :: int]\<rparr>)) =
     [1, 2]"
  by (simp add: visit_all_result visit_list_recording recording_def)




end
